theory Spec2Isabelle
  imports Main
begin

section \<open>The WebSocket service of src/services/api.ts\<close>

text \<open>
  The class \<open>WebSocketService\<close> keeps a transport handle, a subscription table and a
  reconnect counter. Its methods mutate these fields and, through \<open>emit\<close>, call back
  into user code that may call the public methods again before \<open>emit\<close> has finished.
  The model therefore passes the whole state explicitly and keeps the arrays of the
  subscription table in a store, so that the array object a dispatch pass is iterating
  can be told from the array a later assignment puts into the table.
\<close>

subsection \<open>Values\<close>

text \<open>A callback is a function object, compared by identity (\<open>cb !== callback\<close>).\<close>

type_synonym cb = nat

text \<open>The identity of an array object and of a \<open>WebSocket\<close> object.\<close>

type_synonym addr = nat
type_synonym handle = nat

datatype readyState = CONNECTING | OPEN | CLOSING | CLOSED

text \<open>
  What \<open>emit\<close> passes to the callbacks: \<open>null\<close> (for \<open>connected\<close> and
  \<open>disconnected\<close>), the error event, or the \<open>data\<close> member of a parsed frame.
\<close>

datatype 'j data = Null | ErrorEvent | Payload 'j

text \<open>
  The argument of \<open>send\<close> is any value; the method only hands it to
  \<open>JSON.stringify\<close>, which yields a text or throws (a cyclic object, a BigInt).
\<close>

datatype message = Serializable string | Unserializable

fun stringify :: "message \<Rightarrow> string option" where
  "stringify (Serializable t) = Some t"
| "stringify Unserializable = None"

text \<open>
  A call of a public method. \<open>connect\<close> carries the one thing the environment decides
  inside it: whether \<open>new WebSocket(wsUrl)\<close> returned an object (\<open>True\<close>) or threw.
\<close>

datatype call = Connect bool | Disconnect | On string cb | Off string cb | Send message

datatype outcome = Returned | Threw

text \<open>
  What one invocation of a callback does: the public methods it calls, in order, whether
  it then throws, and the state it leaves the rest of the program in. The calls are made
  without a surrounding \<open>try\<close>: an exception of a called method leaves the callback.
\<close>

record 'w reaction =
  calls :: "call list"
  throws :: bool
  world_after :: 'w

type_synonym ('j, 'w) callbacks = "cb \<Rightarrow> 'j data \<Rightarrow> 'w \<Rightarrow> 'w reaction"

subsection \<open>State\<close>

text \<open>
  The three mutable fields of the class (\<open>ws\<close>, \<open>listeners\<close>, \<open>reconnectAttempts\<close>),
  the store of array objects with its allocation counter, the \<open>WebSocket\<close> objects
  created so far with their ready states, every \<open>setTimeout\<close> call made (delay and
  whether the timer has fired), the frames written to a transport, the callback
  invocations made, and the state of the rest of the program.
\<close>

record ('j, 'w) service =
  ws :: "handle option"
  listeners :: "string \<rightharpoonup> addr"
  reconnectAttempts :: nat
  heap :: "addr \<Rightarrow> cb list"
  nxt :: addr
  sockets :: "handle \<Rightarrow> readyState"
  nsock :: nat
  timers :: "(nat \<times> bool) list"
  sent :: "(handle \<times> string) list"
  log :: "(cb \<times> 'j data) list"
  world :: 'w

definition maxReconnectAttempts :: nat where
  "maxReconnectAttempts = 5"

definition reconnectDelay :: nat where
  "reconnectDelay = 1000"

definition init :: "'w \<Rightarrow> ('j, 'w) service" where
  "init w = \<lparr> ws = None, listeners = Map.empty, reconnectAttempts = 0,
              heap = (\<lambda>_. []), nxt = 0, sockets = (\<lambda>_. CLOSED), nsock = 0,
              timers = [], sent = [], log = [], world = w \<rparr>"

subsection \<open>Reading the subscription table\<close>

text \<open>
  \<open>listeners\<close> is an object literal \<open>{}\<close>, so \<open>this.listeners[event]\<close> finds the
  members of \<open>Object.prototype\<close> under their names when the object has no own property
  of that name. Such a value is truthy and is not an array.
\<close>

definition object_prototype_keys :: "string list" where
  "object_prototype_keys =
     [''constructor'', ''hasOwnProperty'', ''isPrototypeOf'', ''propertyIsEnumerable'',
      ''toLocaleString'', ''toString'', ''valueOf'', ''__proto__'',
      ''__defineGetter__'', ''__defineSetter__'', ''__lookupGetter__'', ''__lookupSetter__'']"

definition inherited :: "string \<Rightarrow> bool" where
  "inherited e = (e \<in> set object_prototype_keys)"

datatype slot = Undefined | Inherited | Array addr

definition lookup :: "('j, 'w) service \<Rightarrow> string \<Rightarrow> slot" where
  "lookup s e =
     (case listeners s e of
        Some a \<Rightarrow> Array a
      | None \<Rightarrow> if inherited e then Inherited else Undefined)"

subsection \<open>Connection manager\<close>

definition attemptReconnect :: "('j, 'w) service \<Rightarrow> ('j, 'w) service" where
  "attemptReconnect s =
     (if reconnectAttempts s < maxReconnectAttempts then
        let n = reconnectAttempts s + 1
        in s\<lparr> reconnectAttempts := n,
               timers := timers s @ [(reconnectDelay * n, False)] \<rparr>
      else s)"

definition connect :: "bool \<Rightarrow> ('j, 'w) service \<Rightarrow> ('j, 'w) service" where
  "connect ok s =
     (if ok then
        s\<lparr> ws := Some (nsock s),
            sockets := (sockets s)(nsock s := CONNECTING),
            nsock := Suc (nsock s) \<rparr>
      else attemptReconnect s)"

text \<open>\<open>WebSocket.close()\<close>: a socket that is not yet closing or closed starts closing.\<close>

fun close :: "readyState \<Rightarrow> readyState" where
  "close CONNECTING = CLOSING"
| "close OPEN = CLOSING"
| "close CLOSING = CLOSING"
| "close CLOSED = CLOSED"

definition disconnect :: "('j, 'w) service \<Rightarrow> ('j, 'w) service" where
  "disconnect s =
     (let s1 = (case ws s of
                  Some h \<Rightarrow> s\<lparr> sockets := (sockets s)(h := close (sockets s h)), ws := None \<rparr>
                | None \<Rightarrow> s)
      in s1\<lparr> listeners := Map.empty \<rparr>)"

definition send :: "message \<Rightarrow> ('j, 'w) service \<Rightarrow> outcome \<times> ('j, 'w) service" where
  "send m s =
     (case ws s of
        None \<Rightarrow> (Returned, s)
      | Some h \<Rightarrow>
          if sockets s h = OPEN then
            (case stringify m of
               None \<Rightarrow> (Threw, s)
             | Some t \<Rightarrow> (Returned, s\<lparr> sent := sent s @ [(h, t)] \<rparr>))
          else (Returned, s))"

subsection \<open>Event router\<close>

text \<open>\<open>Array.prototype.push\<close> changes the array object in place.\<close>

definition push :: "addr \<Rightarrow> cb \<Rightarrow> ('j, 'w) service \<Rightarrow> ('j, 'w) service" where
  "push a c s = s\<lparr> heap := (heap s)(a := heap s a @ [c]) \<rparr>"

definition on :: "string \<Rightarrow> cb \<Rightarrow> ('j, 'w) service \<Rightarrow> outcome \<times> ('j, 'w) service" where
  "on e c s =
     (case lookup s e of
        Undefined \<Rightarrow>
          (Returned,
           push (nxt s) c
             (s\<lparr> heap := (heap s)(nxt s := []),
                 listeners := (listeners s)(e \<mapsto> nxt s),
                 nxt := Suc (nxt s) \<rparr>))
      | Inherited \<Rightarrow> (Threw, s)
      | Array a \<Rightarrow> (Returned, push a c s))"

text \<open>\<open>Array.prototype.filter\<close> builds a new array; the old one is left as it is.\<close>

definition off :: "string \<Rightarrow> cb \<Rightarrow> ('j, 'w) service \<Rightarrow> outcome \<times> ('j, 'w) service" where
  "off e c s =
     (case lookup s e of
        Undefined \<Rightarrow> (Returned, s)
      | Inherited \<Rightarrow> (Threw, s)
      | Array a \<Rightarrow>
          (Returned,
           s\<lparr> heap := (heap s)(nxt s := filter (\<lambda>x. x \<noteq> c) (heap s a)),
               listeners := (listeners s)(e \<mapsto> nxt s),
               nxt := Suc (nxt s) \<rparr>))"

fun api :: "call \<Rightarrow> ('j, 'w) service \<Rightarrow> outcome \<times> ('j, 'w) service" where
  "api (Connect ok) s = (Returned, connect ok s)"
| "api Disconnect s = (Returned, disconnect s)"
| "api (On e c) s = on e c s"
| "api (Off e c) s = off e c s"
| "api (Send m) s = send m s"

fun api_calls :: "call list \<Rightarrow> ('j, 'w) service \<Rightarrow> outcome \<times> ('j, 'w) service" where
  "api_calls [] s = (Returned, s)"
| "api_calls (c # cs) s =
     (case api c s of
        (Threw, s') \<Rightarrow> (Threw, s')
      | (Returned, s') \<Rightarrow> api_calls cs s')"

text \<open>\<open>callback(data)\<close>: one invocation of a subscriber.\<close>

definition invoke ::
  "('j, 'w) callbacks \<Rightarrow> cb \<Rightarrow> 'j data \<Rightarrow> ('j, 'w) service \<Rightarrow> outcome \<times> ('j, 'w) service" where
  "invoke react c d s =
     (let r = react c d (world s);
          s1 = s\<lparr> log := log s @ [(c, d)], world := world_after r \<rparr>
      in case api_calls (calls r) s1 of
           (Threw, s2) \<Rightarrow> (Threw, s2)
         | (Returned, s2) \<Rightarrow> (if throws r then Threw else Returned, s2))"

text \<open>
  \<open>Array.prototype.forEach\<close> on the array object \<open>a\<close>: the length is read once, before
  the first call; then every index below it that the array still has is visited, the
  element being read from the array as it is at that moment. An exception of the
  callback ends the loop.
\<close>

function forEach ::
  "('j, 'w) callbacks \<Rightarrow> addr \<Rightarrow> 'j data \<Rightarrow> nat \<Rightarrow> nat \<Rightarrow> ('j, 'w) service
     \<Rightarrow> outcome \<times> ('j, 'w) service" where
  "forEach react a d len k s =
     (if k < len then
        (if k < length (heap s a) then
           (case invoke react (heap s a ! k) d s of
              (Threw, s') \<Rightarrow> (Threw, s')
            | (Returned, s') \<Rightarrow> forEach react a d len (Suc k) s')
         else forEach react a d len (Suc k) s)
      else (Returned, s))"
  by pat_completeness auto
termination
  by (relation "measure (\<lambda>(react, a, d, len, k, s). len - k)") auto

declare forEach.simps [simp del]

definition emit ::
  "('j, 'w) callbacks \<Rightarrow> string \<Rightarrow> 'j data \<Rightarrow> ('j, 'w) service \<Rightarrow> outcome \<times> ('j, 'w) service" where
  "emit react e d s =
     (case lookup s e of
        Undefined \<Rightarrow> (Returned, s)
      | Inherited \<Rightarrow> (Threw, s)
      | Array a \<Rightarrow> forEach react a d (length (heap s a)) 0 s)"

subsection \<open>Handlers of the transport events\<close>

definition onopen :: "('j, 'w) callbacks \<Rightarrow> ('j, 'w) service \<Rightarrow> outcome \<times> ('j, 'w) service" where
  "onopen react s = emit react ''connected'' Null (s\<lparr> reconnectAttempts := 0 \<rparr>)"

text \<open>
  A frame that does not parse, or whose parsed value has no members (\<open>null\<close>), ends in
  the \<open>catch\<close> branch; so does an exception of a subscriber, since \<open>emit\<close> is called
  inside the \<open>try\<close>.
\<close>

datatype 'j frame = Malformed | Parsed string "'j data"

definition onmessage ::
  "('j, 'w) callbacks \<Rightarrow> 'j frame \<Rightarrow> ('j, 'w) service \<Rightarrow> outcome \<times> ('j, 'w) service" where
  "onmessage react f s =
     (case f of
        Malformed \<Rightarrow> (Returned, s)
      | Parsed ty d \<Rightarrow> (Returned, snd (emit react ty d s)))"

definition onclose :: "('j, 'w) callbacks \<Rightarrow> ('j, 'w) service \<Rightarrow> outcome \<times> ('j, 'w) service" where
  "onclose react s =
     (case emit react ''disconnected'' Null s of
        (Threw, s') \<Rightarrow> (Threw, s')
      | (Returned, s') \<Rightarrow> (Returned, attemptReconnect s'))"

definition onerror :: "('j, 'w) callbacks \<Rightarrow> ('j, 'w) service \<Rightarrow> outcome \<times> ('j, 'w) service" where
  "onerror react s = emit react ''error'' ErrorEvent s"

subsection \<open>The event loop\<close>

text \<open>
  What the host delivers to the service, one task at a time: the four events of a
  socket, a timer set by \<open>attemptReconnect\<close> firing (its callback calls \<open>connect\<close>), and
  a call of a public method from outside. An exception that leaves a handler is reported
  by the host and the loop goes on with the state as the handler left it.
\<close>

datatype 'j event =
    Open handle
  | Close handle
  | Error handle
  | Message handle "'j frame"
  | Timer nat bool
  | Call call

fun enabled :: "'j event \<Rightarrow> ('j, 'w) service \<Rightarrow> bool" where
  "enabled (Open h) s = (h < nsock s \<and> sockets s h = CONNECTING)"
| "enabled (Close h) s = (h < nsock s \<and> sockets s h \<noteq> CLOSED)"
| "enabled (Error h) s = (h < nsock s)"
| "enabled (Message h f) s = (h < nsock s \<and> sockets s h = OPEN)"
| "enabled (Timer i ok) s = (i < length (timers s) \<and> \<not> snd (timers s ! i))"
| "enabled (Call c) s = True"

fun handle_event :: "('j, 'w) callbacks \<Rightarrow> 'j event \<Rightarrow> ('j, 'w) service \<Rightarrow> ('j, 'w) service" where
  "handle_event react (Open h) s = snd (onopen react (s\<lparr> sockets := (sockets s)(h := OPEN) \<rparr>))"
| "handle_event react (Close h) s = snd (onclose react (s\<lparr> sockets := (sockets s)(h := CLOSED) \<rparr>))"
| "handle_event react (Error h) s = snd (onerror react s)"
| "handle_event react (Message h f) s = snd (onmessage react f s)"
| "handle_event react (Timer i ok) s =
     connect ok (s\<lparr> timers := (timers s)[i := (fst (timers s ! i), True)] \<rparr>)"
| "handle_event react (Call c) s = snd (api c s)"

definition step :: "('j, 'w) callbacks \<Rightarrow> 'j event \<Rightarrow> ('j, 'w) service \<Rightarrow> ('j, 'w) service" where
  "step react ev s = (if enabled ev s then handle_event react ev s else s)"

fun run :: "('j, 'w) callbacks \<Rightarrow> 'j event list \<Rightarrow> ('j, 'w) service \<Rightarrow> ('j, 'w) service" where
  "run react [] s = s"
| "run react (ev # evs) s = run react evs (step react ev s)"

subsection \<open>Notions used in the properties\<close>

text \<open>The callbacks registered under an event name, in the order of the array.\<close>

definition subscribers :: "('j, 'w) service \<Rightarrow> string \<Rightarrow> cb list" where
  "subscribers s e = (case lookup s e of Array a \<Rightarrow> heap s a | _ \<Rightarrow> [])"

text \<open>
  The shape of the store that every reachable state has: the arrays of the table have
  been allocated, two event names never share an array, and no own property carries a
  name of \<open>Object.prototype\<close>.
\<close>

definition wf :: "('j, 'w) service \<Rightarrow> bool" where
  "wf s =
     ((\<forall>e a. listeners s e = Some a \<longrightarrow> a < nxt s \<and> \<not> inherited e) \<and>
      (\<forall>e e' a. listeners s e = Some a \<longrightarrow> listeners s e' = Some a \<longrightarrow> e = e'))"

text \<open>
  Calls that cannot throw, and callbacks that return normally: they neither throw
  themselves nor make a call that can.
\<close>

fun benign :: "call \<Rightarrow> bool" where
  "benign (On e c) = (\<not> inherited e)"
| "benign (Off e c) = (\<not> inherited e)"
| "benign (Send m) = (m \<noteq> Unserializable)"
| "benign (Connect ok) = True"
| "benign Disconnect = True"

definition calm :: "('j, 'w) callbacks \<Rightarrow> bool" where
  "calm react = (\<forall>c d w. \<not> throws (react c d w) \<and> list_all benign (calls (react c d w)))"



text \<open>The sockets created so far that have not been closed.\<close>

definition live_handles :: "('j, 'w) service \<Rightarrow> handle list" where
  "live_handles s = filter (\<lambda>h. sockets s h \<noteq> CLOSED) [0..<nsock s]"

fun is_Open :: "'j event \<Rightarrow> bool" where
  "is_Open (Open h) = True"
| "is_Open _ = False"

fun is_On :: "call \<Rightarrow> bool" where
  "is_On (On e c) = True"
| "is_On _ = False"

fun is_Connect :: "call \<Rightarrow> bool" where
  "is_Connect (Connect ok) = True"
| "is_Connect _ = False"

fun calls_on :: "'j event \<Rightarrow> bool" where
  "calls_on (Call c) = is_On c"
| "calls_on _ = False"

fun calls_connect :: "'j event \<Rightarrow> bool" where
  "calls_connect (Call c) = is_Connect c"
| "calls_connect _ = False"

text \<open>
  The state in which reconnection has come to rest: the counter stands at its maximum,
  every timer set so far has fired, and no socket is still connecting.
\<close>

definition stopped :: "('j, 'w) service \<Rightarrow> bool" where
  "stopped s =
     (reconnectAttempts s = maxReconnectAttempts \<and>
      list_all snd (timers s) \<and>
      list_all (\<lambda>h. sockets s h \<noteq> CONNECTING) [0..<nsock s])"

subsection \<open>Callbacks and states used as examples\<close>

text \<open>A freshly constructed service, and callbacks that call no method of it.\<close>

definition fresh :: "(unit, unit) service" where
  "fresh = init ()"

definition quiet :: "(unit, unit) callbacks" where
  "quiet c d w = \<lparr> calls = [], throws = False, world_after = w \<rparr>"

text \<open>Every callback removes itself from the event \<open>e\<close> when it is invoked.\<close>

definition unsubscribes_itself :: "string \<Rightarrow> (unit, unit) callbacks" where
  "unsubscribes_itself e c d w = \<lparr> calls = [Off e c], throws = False, world_after = w \<rparr>"

text \<open>The callback \<open>c0\<close> subscribes \<open>c2\<close> to the event \<open>e\<close>; the others call nothing.\<close>

definition subscribes :: "cb \<Rightarrow> string \<Rightarrow> cb \<Rightarrow> (unit, unit) callbacks" where
  "subscribes c0 e c2 c d w =
     \<lparr> calls = (if c = c0 then [On e c2] else []), throws = False, world_after = w \<rparr>"

section \<open>Calls, invocations and the dispatch loop\<close>

lemma api_log: "log (snd (api c s)) = log s"
  by (cases c)
    (auto simp: connect_def attemptReconnect_def disconnect_def on_def off_def send_def push_def
          Let_def split: option.splits slot.splits)

lemma api_calls_log: "log (snd (api_calls cs s)) = log s"
proof (induction cs arbitrary: s)
  case Nil
  show ?case by simp
next
  case (Cons c cs)
  show ?case
  proof (cases "api c s")
    case (Pair out s1)
    with Cons[of s1] api_log[of c s] show ?thesis
      by (cases out) simp_all
  qed
qed

lemma stringify_None: "stringify m = None \<longleftrightarrow> m = Unserializable"
  by (cases m) simp_all

lemma api_benign: "benign c \<Longrightarrow> fst (api c s) = Returned"
  by (cases c)
    (auto simp: on_def off_def send_def lookup_def stringify_None split: option.splits slot.splits)

lemma api_calls_benign: "list_all benign cs \<Longrightarrow> fst (api_calls cs s) = Returned"
proof (induction cs arbitrary: s)
  case Nil
  show ?case by simp
next
  case (Cons c cs)
  then have "fst (api c s) = Returned" and rest: "list_all benign cs"
    by (simp_all add: api_benign)
  then obtain s1 where "api c s = (Returned, s1)"
    by (cases "api c s") simp
  with Cons.IH[OF rest, of s1] show ?case by simp
qed

lemma api_calls_preserves:
  assumes step: "\<And>c s. ok c \<Longrightarrow> P s \<Longrightarrow> P (snd (api c s))"
  shows "list_all ok cs \<Longrightarrow> P s \<Longrightarrow> P (snd (api_calls cs s))"
proof (induction cs arbitrary: s)
  case Nil
  then show ?case by simp
next
  case (Cons c cs)
  then have "P (snd (api c s))" and rest: "list_all ok cs"
    using step by simp_all
  then show ?case
    using Cons.IH[OF rest, of "snd (api c s)"]
    by (cases "api c s") (auto split: outcome.splits)
qed

lemma invoke_log: "log (snd (invoke react c d s)) = log s @ [(c, d)]"
proof -
  let ?s1 = "s\<lparr> log := log s @ [(c, d)], world := world_after (react c d (world s)) \<rparr>"
  have "log (snd (api_calls (calls (react c d (world s))) ?s1)) = log ?s1"
    by (rule api_calls_log)
  then show ?thesis
    by (auto simp: invoke_def Let_def split: prod.splits outcome.splits)
qed

lemma invoke_calm: "calm react \<Longrightarrow> fst (invoke react c d s) = Returned"
proof -
  assume c: "calm react"
  let ?s1 = "s\<lparr> log := log s @ [(c, d)], world := world_after (react c d (world s)) \<rparr>"
  from c have "fst (api_calls (calls (react c d (world s))) ?s1) = Returned"
    by (intro api_calls_benign) (simp add: calm_def)
  with c show ?thesis
    by (auto simp: invoke_def Let_def calm_def split: prod.splits outcome.splits)
qed

lemma invoke_preserves:
  assumes step: "\<And>c s. ok c \<Longrightarrow> P s \<Longrightarrow> P (snd (api c s))"
    and upd: "\<And>s l w. P s \<Longrightarrow> P (s\<lparr> log := l, world := w \<rparr>)"
    and ok: "\<And>c d w. list_all ok (calls (react c d w))"
  shows "P s \<Longrightarrow> P (snd (invoke react c d s))"
proof -
  assume "P s"
  let ?s1 = "s\<lparr> log := log s @ [(c, d)], world := world_after (react c d (world s)) \<rparr>"
  from \<open>P s\<close> have "P ?s1" by (rule upd)
  with ok have "P (snd (api_calls (calls (react c d (world s))) ?s1))"
    by (intro api_calls_preserves[where ok = ok and P = P]) (auto intro: step)
  then show ?thesis
    by (auto simp: invoke_def Let_def split: prod.splits outcome.splits)
qed

lemma forEach_done: "\<not> k < len \<Longrightarrow> forEach react a d len k s = (Returned, s)"
  by (simp add: forEach.simps[of react a d len k s])

lemma forEach_skip:
  "k < len \<Longrightarrow> \<not> k < length (heap s a) \<Longrightarrow>
   forEach react a d len k s = forEach react a d len (Suc k) s"
  by (simp add: forEach.simps[of react a d len k s])

lemma forEach_threw:
  "k < len \<Longrightarrow> k < length (heap s a) \<Longrightarrow> invoke react (heap s a ! k) d s = (Threw, s1) \<Longrightarrow>
   forEach react a d len k s = (Threw, s1)"
  by (simp add: forEach.simps[of react a d len k s])

lemma forEach_next:
  "k < len \<Longrightarrow> k < length (heap s a) \<Longrightarrow> invoke react (heap s a ! k) d s = (Returned, s1) \<Longrightarrow>
   forEach react a d len k s = forEach react a d len (Suc k) s1"
  by (simp add: forEach.simps[of react a d len k s])

lemma forEach_preserves:
  assumes step: "\<And>c s. ok c \<Longrightarrow> P s \<Longrightarrow> P (snd (api c s))"
    and upd: "\<And>s l w. P s \<Longrightarrow> P (s\<lparr> log := l, world := w \<rparr>)"
    and ok: "\<And>c d w. list_all ok (calls (react c d w))"
  shows "P s \<Longrightarrow> P (snd (forEach react a d len k s))"
proof (induction "len - k" arbitrary: k s)
  case 0
  then show ?case by (simp add: forEach_done)
next
  case (Suc n)
  then have lt: "k < len" and n: "n = len - Suc k" by simp_all
  show ?case
  proof (cases "k < length (heap s a)")
    case False
    with lt Suc.hyps(1)[OF n Suc.prems] show ?thesis by (simp add: forEach_skip)
  next
    case True
    obtain out s1 where inv1: "invoke react (heap s a ! k) d s = (out, s1)"
      by (cases "invoke react (heap s a ! k) d s")
    have "P (snd (invoke react (heap s a ! k) d s))"
      using step upd ok Suc.prems by (rule invoke_preserves[where P = P and ok = ok])
    with inv1 have P1: "P s1" by simp
    show ?thesis
    proof (cases out)
      case Returned
      with inv1 lt True Suc.hyps(1)[OF n P1] show ?thesis by (simp add: forEach_next)
    next
      case Threw
      with inv1 lt True P1 show ?thesis by (simp add: forEach_threw)
    qed
  qed
qed

lemma emit_preserves:
  assumes step: "\<And>c s. ok c \<Longrightarrow> P s \<Longrightarrow> P (snd (api c s))"
    and upd: "\<And>s l w. P s \<Longrightarrow> P (s\<lparr> log := l, world := w \<rparr>)"
    and ok: "\<And>c d w. list_all ok (calls (react c d w))"
  shows "P s \<Longrightarrow> P (snd (emit react e d s))"
  using forEach_preserves[where P = P and ok = ok, OF step upd ok]
  by (simp add: emit_def split: slot.splits)

lemma forEach_snapshot:
  assumes calm: "calm react"
  shows "a < nxt s \<Longrightarrow> \<exists>ys. heap s a = xs @ ys \<Longrightarrow> k \<le> length xs \<Longrightarrow>
    fst (forEach react a d (length xs) k s) = Returned \<and>
    log (snd (forEach react a d (length xs) k s)) = log s @ map (\<lambda>c. (c, d)) (drop k xs)"
proof (induction "length xs - k" arbitrary: k s)
  case 0
  then show ?case by (simp add: forEach_done)
next
  case (Suc n)
  then have lt: "k < length xs" and n: "n = length xs - Suc k" by simp_all
  from Suc.prems(2) lt have inb: "k < length (heap s a)" and el: "heap s a ! k = xs ! k"
    by (auto simp: nth_append)
  obtain out s1 where inv1: "invoke react (xs ! k) d s = (out, s1)"
    by (cases "invoke react (xs ! k) d s")
  with invoke_calm[OF calm, of "xs ! k" d s] have out: "out = Returned" by simp
  have "(\<lambda>s. a < nxt s \<and> (\<exists>ys. heap s a = xs @ ys)) (snd (invoke react (xs ! k) d s))"
  proof (rule invoke_preserves[where ok = "\<lambda>c. True"])
    fix c and s :: "('j, 'w) service"
    assume "a < nxt s \<and> (\<exists>ys. heap s a = xs @ ys)"
    then show "a < nxt (snd (api c s)) \<and> (\<exists>ys. heap (snd (api c s)) a = xs @ ys)"
      by (cases c)
        (auto simp: connect_def attemptReconnect_def disconnect_def on_def off_def send_def
           push_def Let_def split: option.splits slot.splits)
  qed (use Suc.prems in \<open>simp_all add: list_all_iff\<close>)
  with inv1 have P1: "a < nxt s1" "\<exists>ys. heap s1 a = xs @ ys" by simp_all
  from invoke_log[of react "xs ! k" d s] inv1 have log1: "log s1 = log s @ [(xs ! k, d)]"
    by simp
  from lt have "Suc k \<le> length xs" by simp
  from Suc.hyps(1)[OF n P1 this] log1 inv1 out lt inb el
  show ?case
    by (simp add: forEach_next Cons_nth_drop_Suc[symmetric])
qed

lemma emit_snapshot:
  assumes "calm react" "wf s" "\<not> inherited e"
  shows "fst (emit react e d s) = Returned \<and>
    log (snd (emit react e d s)) = log s @ map (\<lambda>c. (c, d)) (subscribers s e)"
proof (cases "lookup s e")
  case Undefined
  then show ?thesis by (simp add: emit_def subscribers_def)
next
  case Inherited
  with assms(3) show ?thesis by (simp add: lookup_def split: option.splits if_splits)
next
  case (Array a)
  with assms(2) have "a < nxt s" by (auto simp: wf_def lookup_def split: option.splits if_splits)
  from forEach_snapshot[OF assms(1) this, of "heap s a" 0 d] Array show ?thesis
    by (simp add: emit_def subscribers_def)
qed

section \<open>The shape of reachable states\<close>

lemma wf_init: "wf (init w)"
  by (simp add: wf_def init_def)

lemma wfI:
  assumes "\<And>e a. listeners s e = Some a \<Longrightarrow> a < nxt s \<and> \<not> inherited e"
    and "\<And>e e' a. listeners s e = Some a \<Longrightarrow> listeners s e' = Some a \<Longrightarrow> e = e'"
  shows "wf s"
  unfolding wf_def using assms by blast

lemma wf_bound: "wf s \<Longrightarrow> listeners s e = Some a \<Longrightarrow> a < nxt s"
  unfolding wf_def by blast

lemma wf_own: "wf s \<Longrightarrow> listeners s e = Some a \<Longrightarrow> \<not> inherited e"
  unfolding wf_def by blast

lemma wf_inj: "wf s \<Longrightarrow> listeners s e = Some a \<Longrightarrow> listeners s e' = Some a \<Longrightarrow> e = e'"
  unfolding wf_def by blast

lemma wf_cong: "listeners s' = listeners s \<Longrightarrow> nxt s' = nxt s \<Longrightarrow> wf s' = wf s"
  unfolding wf_def by simp

lemma lookup_cases:
  "lookup s e = Undefined \<longleftrightarrow> listeners s e = None \<and> \<not> inherited e"
  "lookup s e = Inherited \<longleftrightarrow> listeners s e = None \<and> inherited e"
  "lookup s e = Array a \<longleftrightarrow> listeners s e = Some a"
  by (simp_all add: lookup_def split: option.splits)

lemma wf_fresh:
  assumes "wf s" and new: "listeners s e = None \<longrightarrow> \<not> inherited e"
    and l: "listeners s' = (listeners s)(e \<mapsto> nxt s)" and n: "nxt s' = Suc (nxt s)"
  shows "wf s'"
proof (rule wfI)
  fix e1 a
  assume "listeners s' e1 = Some a"
  with l have "(e1 = e \<and> a = nxt s) \<or> (e1 \<noteq> e \<and> listeners s e1 = Some a)"
    by (auto split: if_splits)
  then show "a < nxt s' \<and> \<not> inherited e1"
  proof
    assume "e1 = e \<and> a = nxt s"
    moreover have "\<not> inherited e"
    proof (cases "listeners s e")
      case None
      with new show ?thesis by simp
    next
      case (Some b)
      with \<open>wf s\<close> show ?thesis by (rule wf_own)
    qed
    ultimately show ?thesis using n by simp
  next
    assume "e1 \<noteq> e \<and> listeners s e1 = Some a"
    with wf_bound[OF \<open>wf s\<close>, of e1 a] wf_own[OF \<open>wf s\<close>, of e1 a] n show ?thesis by simp
  qed
next
  fix e1 e2 a
  assume "listeners s' e1 = Some a" "listeners s' e2 = Some a"
  with l have c1: "(e1 = e \<and> a = nxt s) \<or> (e1 \<noteq> e \<and> listeners s e1 = Some a)"
    and c2: "(e2 = e \<and> a = nxt s) \<or> (e2 \<noteq> e \<and> listeners s e2 = Some a)"
    by (auto split: if_splits)
  have "listeners s x = Some a \<Longrightarrow> a \<noteq> nxt s" for x
    using wf_bound[OF \<open>wf s\<close>, of x a] by auto
  with c1 c2 wf_inj[OF \<open>wf s\<close>, of e1 a e2] show "e1 = e2" by blast
qed

lemma on_cases:
  "lookup s e = Undefined \<Longrightarrow>
     on e c s = (Returned, push (nxt s) c (s\<lparr> heap := (heap s)(nxt s := []),
                   listeners := (listeners s)(e \<mapsto> nxt s), nxt := Suc (nxt s) \<rparr>))"
  "lookup s e = Inherited \<Longrightarrow> on e c s = (Threw, s)"
  "lookup s e = Array a \<Longrightarrow> on e c s = (Returned, push a c s)"
  by (simp_all add: on_def)

lemma off_cases:
  "lookup s e = Undefined \<Longrightarrow> off e c s = (Returned, s)"
  "lookup s e = Inherited \<Longrightarrow> off e c s = (Threw, s)"
  "lookup s e = Array a \<Longrightarrow>
     off e c s = (Returned, s\<lparr> heap := (heap s)(nxt s := filter (\<lambda>x. x \<noteq> c) (heap s a)),
                   listeners := (listeners s)(e \<mapsto> nxt s), nxt := Suc (nxt s) \<rparr>)"
  by (simp_all add: off_def)

lemma on_wf: "wf s \<Longrightarrow> wf (snd (on e c s))"
proof (cases "lookup s e")
  case Undefined
  assume "wf s"
  then show ?thesis
    by (rule wf_fresh[where e = e])
      (use Undefined in \<open>simp_all add: on_cases(1)[OF Undefined] push_def lookup_cases\<close>)
next
  case Inherited
  assume "wf s"
  then show ?thesis by (simp add: on_cases(2)[OF Inherited])
next
  case (Array a)
  assume "wf s"
  with wf_cong[of "push a c s" s] show ?thesis by (simp add: on_cases(3)[OF Array] push_def)
qed

lemma off_wf: "wf s \<Longrightarrow> wf (snd (off e c s))"
proof (cases "lookup s e")
  case Undefined
  assume "wf s"
  then show ?thesis by (simp add: off_cases(1)[OF Undefined])
next
  case Inherited
  assume "wf s"
  then show ?thesis by (simp add: off_cases(2)[OF Inherited])
next
  case (Array a)
  assume "wf s"
  then show ?thesis
    by (rule wf_fresh[where e = e])
      (use Array in \<open>simp_all add: off_cases(3)[OF Array] lookup_cases\<close>)
qed

lemma wf_attemptReconnect: "wf (attemptReconnect s) = wf s"
  by (rule wf_cong) (simp_all add: attemptReconnect_def Let_def)

lemma wf_connect: "wf (connect ok s) = wf s"
  by (rule wf_cong) (simp_all add: connect_def attemptReconnect_def Let_def)

lemma wf_disconnect: "wf (disconnect s)"
  by (rule wfI) (simp_all add: disconnect_def Let_def)

lemma wf_send: "wf (snd (send m s)) = wf s"
  by (rule wf_cong) (simp_all add: send_def split: option.splits)

lemma api_wf: "wf s \<Longrightarrow> wf (snd (api c s))"
  by (cases c) (simp_all add: on_wf off_wf wf_connect wf_disconnect wf_send)

lemma emit_wf: "wf s \<Longrightarrow> wf (snd (emit react e d s))"
proof (rule emit_preserves[where ok = "\<lambda>c. True" and P = wf])
  show "wf (s\<lparr> log := l, world := w \<rparr>)" if "wf s" for s :: "('j, 'w) service" and l w
    using that wf_cong[of "s\<lparr> log := l, world := w \<rparr>" s] by simp
qed (simp_all add: api_wf list_all_iff)

lemma step_wf: "wf s \<Longrightarrow> wf (step react ev s)"
proof (cases ev)
  case (Open h)
  assume "wf s"
  then have "wf (s\<lparr> sockets := (sockets s)(h := OPEN), reconnectAttempts := 0 \<rparr>)"
    using wf_cong[of "s\<lparr> sockets := (sockets s)(h := OPEN), reconnectAttempts := 0 \<rparr>" s] by simp
  from emit_wf[OF this] \<open>wf s\<close> show ?thesis
    by (simp add: Open step_def onopen_def)
next
  case (Close h)
  assume "wf s"
  then have "wf (s\<lparr> sockets := (sockets s)(h := CLOSED) \<rparr>)"
    using wf_cong[of "s\<lparr> sockets := (sockets s)(h := CLOSED) \<rparr>" s] by simp
  from emit_wf[OF this, of react "''disconnected''" Null] \<open>wf s\<close> show ?thesis
    by (cases "emit react ''disconnected'' Null (s\<lparr> sockets := (sockets s)(h := CLOSED) \<rparr>)")
      (simp add: Close step_def onclose_def wf_attemptReconnect split: outcome.splits)
next
  case (Error h)
  assume "wf s"
  with emit_wf[of s] show ?thesis by (simp add: Error step_def onerror_def)
next
  case (Message h f)
  assume "wf s"
  with emit_wf[of s] show ?thesis
    by (simp add: Message step_def onmessage_def split: frame.splits)
next
  case (Timer i ok)
  assume "wf s"
  then show ?thesis
    using wf_cong[of "s\<lparr> timers := (timers s)[i := (fst (timers s ! i), True)] \<rparr>" s]
    by (simp add: Timer step_def wf_connect)
next
  case (Call c)
  assume "wf s"
  with api_wf[of s c] show ?thesis by (simp add: Call step_def)
qed

lemma run_wf: "wf s \<Longrightarrow> wf (run react evs s)"
  by (induction evs arbitrary: s) (simp_all add: step_wf)

section \<open>The reconnect policy\<close>

lemma attemptReconnect_below:
  "reconnectAttempts s < maxReconnectAttempts \<Longrightarrow>
   attemptReconnect s = s\<lparr> reconnectAttempts := reconnectAttempts s + 1,
        timers := timers s @ [(1000 * (reconnectAttempts s + 1), False)] \<rparr>"
  by (simp add: attemptReconnect_def reconnectDelay_def Let_def)

lemma attemptReconnect_stop:
  "\<not> reconnectAttempts s < maxReconnectAttempts \<Longrightarrow> attemptReconnect s = s"
  by (simp add: attemptReconnect_def)

lemma funpow_attempt:
  fixes s0 :: "('j, 'w) service"
  assumes "s0 = init w"
  shows "k \<le> 5 \<Longrightarrow> reconnectAttempts ((attemptReconnect ^^ k) s0) = k \<and>
     map fst (timers ((attemptReconnect ^^ k) s0)) = map (\<lambda>i. 1000 * i) [1..<Suc k]"
proof (induction k)
  case 0
  then show ?case by (simp add: assms init_def)
next
  case (Suc k)
  then have ih: "reconnectAttempts ((attemptReconnect ^^ k) s0) = k"
    "map fst (timers ((attemptReconnect ^^ k) s0)) = map (\<lambda>i. 1000 * i) [1..<Suc k]"
    by simp_all
  have "reconnectAttempts ((attemptReconnect ^^ k) s0) < maxReconnectAttempts"
    using ih(1) Suc.prems by (simp add: maxReconnectAttempts_def)
  from attemptReconnect_below[OF this] ih show ?case by simp
qed

text \<open>
  C6, as the claim states it, fails: the first reconnect after a fresh start is scheduled
  with delay 1000, not with \<open>1000 * (1 - 1)\<close>, because the counter is incremented before
  the delay is computed.
\<close>

theorem first_delay_counterexample:
  "timers (attemptReconnect (init ()) :: (unit, unit) service) = [(1000, False)] \<and>
   (1000::nat) \<noteq> 1000 * (1 - 1)"
  by (simp add: attemptReconnect_def init_def maxReconnectAttempts_def reconnectDelay_def)

text \<open>
  C6 (amended): while the counter is below 5, \<open>attemptReconnect\<close> first increments it and
  then schedules a timer whose delay is 1000 times the incremented counter; at 5 or above
  it does nothing. So the k-th consecutive reconnect (k from 1 to 5) is scheduled with
  delay \<open>1000 * k\<close>: the delays are 1000, 2000, ... in this order. A scheduled timer that
  fires calls \<open>connect\<close>.
\<close>

theorem reconnect_policy:
  fixes s :: "('j, 'w) service" and w :: 'w
  shows
  "(reconnectAttempts s < 5 \<longrightarrow>
      reconnectAttempts (attemptReconnect s) = reconnectAttempts s + 1 \<and>
      timers (attemptReconnect s) =
        timers s @ [(1000 * (reconnectAttempts s + 1), False)]) \<and>
   (5 \<le> reconnectAttempts s \<longrightarrow> attemptReconnect s = s) \<and>
   (k \<le> 5 \<longrightarrow>
      map fst (timers ((attemptReconnect ^^ k) (init w :: ('j, 'w) service)))
        = map (\<lambda>i. 1000 * i) [1..<Suc k]) \<and>
   (i < length (timers s) \<and> \<not> snd (timers s ! i) \<longrightarrow>
      step react (Timer i ok) s =
        connect ok (s\<lparr> timers := (timers s)[i := (fst (timers s ! i), True)] \<rparr>))"
  using attemptReconnect_below[of s] attemptReconnect_stop[of s]
    funpow_attempt[of "init w :: ('j, 'w) service" w k]
  by (simp add: maxReconnectAttempts_def step_def)

theorem reconnect_policy_witness:
  "map fst (timers ((attemptReconnect ^^ 3) (init ()) :: (unit, unit) service)) = [1000, 2000, 3000]"
  using reconnect_policy[of "init () :: (unit, unit) service" 3 "()" 0
      "\<lambda>c d w. \<lparr>calls = [], throws = False, world_after = w\<rparr>" True]
  by (simp add: upt_rec)

section \<open>Sending\<close>

text \<open>
  C7: for every message, \<open>send\<close> called while no handle is held, or while the handle held
  is not in the state \<open>OPEN\<close>, returns normally and leaves the whole state as it was:
  nothing is written to a transport, nothing is kept for later, and the subscription
  table, the reconnect state and the handle are unchanged.
\<close>

theorem send_not_open:
  "ws s = None \<or> (\<exists>h. ws s = Some h \<and> sockets s h \<noteq> OPEN) \<Longrightarrow> send m s = (Returned, s)"
  by (auto simp: send_def)

theorem send_not_open_witness:
  "send (Serializable ''hello'') (connect True (init ()) :: (unit, unit) service)
     = (Returned, connect True (init ()))"
proof -
  have "\<exists>h. ws (connect True (init ()) :: (unit, unit) service) = Some h
           \<and> sockets (connect True (init ()) :: (unit, unit) service) h \<noteq> OPEN"
    by (simp add: connect_def init_def)
  then show ?thesis using send_not_open by blast
qed

section \<open>The subscription table and the dispatch of an event\<close>




lemma subscribers_cong:
  "listeners s' = listeners s \<Longrightarrow> heap s' = heap s \<Longrightarrow> subscribers s' = subscribers s"
  by (rule ext) (simp add: subscribers_def lookup_def split: option.splits)










section \<open>Changing the table during a dispatch pass\<close>

lemma reachable_wf: "wf (run react evs (init w))"
  by (intro run_wf wf_init)

text \<open>
  C2: in every reachable state, a dispatch pass for an event name that is not a member of
  \<open>Object.prototype\<close>, with callbacks that return normally whatever public methods they
  call during the pass (among them \<open>off(e, cb)\<close> for their own or any other callback),
  returns normally and invokes every callback that was subscribed to \<open>e\<close> when the pass
  started, in order: \<open>off\<close> puts a filtered copy into the table and leaves the array
  being iterated as it is.
\<close>

theorem off_during_dispatch:
  fixes w :: 'w and react :: "('j, 'w) callbacks"
  assumes "calm react" and "\<not> inherited e"
  shows "fst (emit react e d (run react evs (init w))) = Returned \<and>
         log (snd (emit react e d (run react evs (init w))))
           = log (run react evs (init w))
               @ map (\<lambda>c. (c, d)) (subscribers (run react evs (init w)) e)"
  using assms by (intro emit_snapshot reachable_wf)

theorem off_during_dispatch_witness:
  "fst (emit (unsubscribes_itself ''status_update'') ''status_update'' Null
          (run (unsubscribes_itself ''status_update'')
             [Call (On ''status_update'' 1), Call (On ''status_update'' 2)] fresh))
     = Returned \<and>
   log (snd (emit (unsubscribes_itself ''status_update'') ''status_update'' Null
          (run (unsubscribes_itself ''status_update'')
             [Call (On ''status_update'' 1), Call (On ''status_update'' 2)] fresh)))
     = [(1, Null), (2, Null)]"
proof -
  let ?react = "unsubscribes_itself ''status_update''"
  have e: "\<not> inherited ''status_update''"
    by (simp add: inherited_def object_prototype_keys_def)
  then have c: "calm ?react"
    by (simp add: calm_def unsubscribes_itself_def)
  have s: "subscribers (run ?react [Call (On ''status_update'' 1), Call (On ''status_update'' 2)] fresh)
             ''status_update'' = [1, 2]"
    "log (run ?react [Call (On ''status_update'' 1), Call (On ''status_update'' 2)] fresh) = []"
    using e by (simp_all add: step_def on_def lookup_def init_def push_def subscribers_def fresh_def)
  from off_during_dispatch[OF c e, where d = Null and w = "()" and
      evs = "[Call (On ''status_update'' 1), Call (On ''status_update'' 2)]"] s
  show ?thesis by (simp add: fresh_def)
qed

text \<open>
  C10, as the claim states it, fails: callback 1 is subscribed to the event and, when
  invoked, subscribes callback 2 to the same event. The pass invokes callback 1 only,
  although callback 2 has been appended to the very array the pass is iterating.
\<close>

theorem addition_during_dispatch_counterexample:
  "log (snd (emit (subscribes 1 ''chat_message'' 2) ''chat_message'' Null
          (snd (on ''chat_message'' 1 fresh))))
     = [(1, Null)] \<and>
   subscribers (snd (emit (subscribes 1 ''chat_message'' 2) ''chat_message'' Null
          (snd (on ''chat_message'' 1 fresh)))) ''chat_message''
     = [1, 2] \<and>
   lookup (snd (emit (subscribes 1 ''chat_message'' 2) ''chat_message'' Null
          (snd (on ''chat_message'' 1 fresh)))) ''chat_message''
     = lookup (snd (on ''chat_message'' 1 fresh)) ''chat_message''"
  by (simp add: emit_def on_def lookup_def init_def push_def inherited_def fresh_def
        object_prototype_keys_def forEach.simps invoke_def subscribers_def subscribes_def)

lemma on_tracks:
  assumes "listeners s e = Some a" "a < nxt s" "heap s a = xs @ ys" "\<not> inherited e'"
  shows "listeners (snd (on e' x s)) e = Some a \<and> a < nxt (snd (on e' x s)) \<and>
         heap (snd (on e' x s)) a = xs @ ys @ (if listeners s e' = Some a then [x] else [])"
proof (cases "lookup s e'")
  case Undefined
  then have "listeners s e' = None" by (simp add: lookup_cases)
  with assms show ?thesis
    by (auto simp: on_cases(1)[OF Undefined] push_def)
next
  case Inherited
  with assms(4) show ?thesis by (simp add: lookup_cases)
next
  case (Array a')
  then have "listeners s e' = Some a'" by (simp add: lookup_cases)
  with assms show ?thesis
    by (auto simp: on_cases(3)[OF Array] push_def)
qed

lemma api_on_tracks:
  assumes "is_On c" "benign c"
    and "listeners s e = Some a \<and> a < nxt s \<and> (\<exists>ys. heap s a = xs @ ys \<and> Q ys)"
    and up: "\<And>ys zs. Q ys \<Longrightarrow> Q (ys @ zs)"
  shows "listeners (snd (api c s)) e = Some a \<and> a < nxt (snd (api c s)) \<and>
         (\<exists>ys. heap (snd (api c s)) a = xs @ ys \<and> Q ys)"
proof -
  from assms(1) obtain e' x where c: "c = On e' x" by (cases c) simp_all
  with assms(2) have e': "\<not> inherited e'" by simp
  from assms(3) obtain ys where l: "listeners s e = Some a" and n: "a < nxt s"
    and h: "heap s a = xs @ ys" and q: "Q ys" by blast
  from on_tracks[OF l n h e', of x] up[OF q] show ?thesis
    unfolding c by auto
qed

lemma api_on_adds:
  assumes "\<not> inherited e"
    and "listeners s e = Some a \<and> a < nxt s \<and> (\<exists>ys. heap s a = xs @ ys)"
  shows "listeners (snd (api (On e c2) s)) e = Some a \<and> a < nxt (snd (api (On e c2) s)) \<and>
         (\<exists>ys. heap (snd (api (On e c2) s)) a = xs @ ys \<and> c2 \<in> set ys)"
proof -
  from assms(2) obtain ys where l: "listeners s e = Some a" and n: "a < nxt s"
    and h: "heap s a = xs @ ys" by blast
  from on_tracks[OF l n h assms(1), of c2] l show ?thesis by auto
qed

lemma api_calls_on_adds:
  assumes "\<not> inherited e"
  shows "On e c2 \<in> set cs \<Longrightarrow> list_all is_On cs \<Longrightarrow> list_all benign cs \<Longrightarrow>
    listeners s e = Some a \<and> a < nxt s \<and> (\<exists>ys. heap s a = xs @ ys) \<Longrightarrow>
    listeners (snd (api_calls cs s)) e = Some a \<and> a < nxt (snd (api_calls cs s)) \<and>
    (\<exists>ys. heap (snd (api_calls cs s)) a = xs @ ys \<and> c2 \<in> set ys)"
proof (induction cs arbitrary: s)
  case Nil
  then show ?case by simp
next
  case (Cons c cs)
  from Cons.prems have on: "is_On c" "list_all is_On cs" and ben: "benign c" "list_all benign cs"
    by simp_all
  from api_benign[OF ben(1), of s] obtain s1 where s1: "api c s = (Returned, s1)"
    by (cases "api c s") simp
  then have calls: "api_calls (c # cs) s = api_calls cs s1" by simp
  show ?case
  proof (cases "c = On e c2")
    case True
    from api_on_adds[OF assms Cons.prems(4), of c2] s1 True
    have "listeners s1 e = Some a \<and> a < nxt s1 \<and> (\<exists>ys. heap s1 a = xs @ ys \<and> c2 \<in> set ys)"
      by simp
    then have "(\<lambda>s. listeners s e = Some a \<and> a < nxt s \<and> (\<exists>ys. heap s a = xs @ ys \<and> c2 \<in> set ys))
                 (snd (api_calls cs s1))"
      using on(2) ben(2)
    proof (induction cs arbitrary: s1)
      case Nil
      then show ?case by simp
    next
      case (Cons c' cs')
      from Cons.prems have on': "is_On c'" "list_all is_On cs'" and ben': "benign c'" "list_all benign cs'"
        by simp_all
      from api_benign[OF ben'(1), of s1] obtain s2 where s2: "api c' s1 = (Returned, s2)"
        by (cases "api c' s1") simp
      from api_on_tracks[where Q = "\<lambda>ys. c2 \<in> set ys", OF on'(1) ben'(1) Cons.prems(1)] s2
      have "listeners s2 e = Some a \<and> a < nxt s2 \<and> (\<exists>ys. heap s2 a = xs @ ys \<and> c2 \<in> set ys)"
        by simp
      from Cons.IH[OF this on'(2) ben'(2)] s2 show ?case by simp
    qed
    with calls show ?thesis by simp
  next
    case False
    with Cons.prems(1) have mem: "On e c2 \<in> set cs" by simp
    from Cons.prems(4)
    have "listeners s e = Some a \<and> a < nxt s \<and> (\<exists>ys. heap s a = xs @ ys \<and> True)" by simp
    from api_on_tracks[where Q = "\<lambda>ys. True", OF on(1) ben(1) this] s1
    have "listeners s1 e = Some a \<and> a < nxt s1 \<and> (\<exists>ys. heap s1 a = xs @ ys)"
      by simp
    from Cons.IH[OF mem on(2) ben(2) this] calls show ?thesis by simp
  qed
qed

lemma invoke_on_adds:
  assumes "calm react" and only: "\<And>c d w. list_all is_On (calls (react c d w))"
    and "\<not> inherited e"
    and "On e c2 \<in> set (calls (react c d (world s)))"
    and "listeners s e = Some a \<and> a < nxt s \<and> (\<exists>ys. heap s a = xs @ ys)"
  shows "listeners (snd (invoke react c d s)) e = Some a \<and> a < nxt (snd (invoke react c d s)) \<and>
         (\<exists>ys. heap (snd (invoke react c d s)) a = xs @ ys \<and> c2 \<in> set ys)"
proof -
  let ?r = "react c d (world s)"
  let ?s1 = "s\<lparr> log := log s @ [(c, d)], world := world_after ?r \<rparr>"
  from assms(5)
  have "listeners ?s1 e = Some a \<and> a < nxt ?s1 \<and> (\<exists>ys. heap ?s1 a = xs @ ys)" by simp
  from api_calls_on_adds[OF assms(3,4) only _ this] assms(1)
  have "listeners (snd (api_calls (calls ?r) ?s1)) e = Some a \<and>
        a < nxt (snd (api_calls (calls ?r) ?s1)) \<and>
        (\<exists>ys. heap (snd (api_calls (calls ?r) ?s1)) a = xs @ ys \<and> c2 \<in> set ys)"
    by (simp add: calm_def)
  then show ?thesis
    by (cases "api_calls (calls ?r) ?s1") (simp add: invoke_def Let_def split: outcome.splits)
qed

lemma invoke_on_tracks:
  assumes "calm react" and only: "\<And>c d w. list_all is_On (calls (react c d w))"
    and up: "\<And>ys zs. Q ys \<Longrightarrow> Q (ys @ zs)"
    and "listeners s e = Some a \<and> a < nxt s \<and> (\<exists>ys. heap s a = xs @ ys \<and> Q ys)"
  shows "listeners (snd (invoke react c d s)) e = Some a \<and> a < nxt (snd (invoke react c d s)) \<and>
         (\<exists>ys. heap (snd (invoke react c d s)) a = xs @ ys \<and> Q ys)"
proof (rule invoke_preserves[where ok = "\<lambda>c. is_On c \<and> benign c"
      and P = "\<lambda>s. listeners s e = Some a \<and> a < nxt s \<and> (\<exists>ys. heap s a = xs @ ys \<and> Q ys)"])
  fix c and s :: "('j, 'w) service"
  assume "is_On c \<and> benign c"
    and "listeners s e = Some a \<and> a < nxt s \<and> (\<exists>ys. heap s a = xs @ ys \<and> Q ys)"
  then show "listeners (snd (api c s)) e = Some a \<and> a < nxt (snd (api c s)) \<and>
         (\<exists>ys. heap (snd (api c s)) a = xs @ ys \<and> Q ys)"
    using api_on_tracks[where Q = Q, OF _ _ _ up] by blast
next
  fix c d w
  from assms(1) only[of c d w] show "list_all (\<lambda>c. is_On c \<and> benign c) (calls (react c d w))"
    by (simp add: calm_def list_all_iff)
qed (use assms(4) in simp_all)

lemma forEach_on_adds:
  assumes calm: "calm react" and only: "\<And>c d w. list_all is_On (calls (react c d w))"
    and e: "\<not> inherited e"
    and adds: "\<And>w. On e c2 \<in> set (calls (react c d w))"
  shows "listeners s e = Some a \<and> a < nxt s \<and> (\<exists>ys. heap s a = xs @ ys) \<Longrightarrow>
    k \<le> length xs \<Longrightarrow>
    c \<in> set (drop k xs) \<or> (\<exists>ys. heap s a = xs @ ys \<and> c2 \<in> set ys) \<Longrightarrow>
    listeners (snd (forEach react a d (length xs) k s)) e = Some a \<and>
    (\<exists>ys. heap (snd (forEach react a d (length xs) k s)) a = xs @ ys \<and> c2 \<in> set ys)"
proof (induction "length xs - k" arbitrary: k s)
  case 0
  then show ?case by (simp add: forEach_done)
next
  case (Suc n)
  then have lt: "k < length xs" and n: "n = length xs - Suc k" by simp_all
  from Suc.prems(1) lt have inb: "k < length (heap s a)" and el: "heap s a ! k = xs ! k"
    by (auto simp: nth_append)
  obtain out s1 where inv1: "invoke react (xs ! k) d s = (out, s1)"
    by (cases "invoke react (xs ! k) d s")
  with invoke_calm[OF calm, of "xs ! k" d s] have out: "out = Returned" by simp
  from inv1 out lt inb el
  have next_k: "forEach react a d (length xs) k s = forEach react a d (length xs) (Suc k) s1"
    by (simp add: forEach_next)
  from Suc.prems(1)
  have "listeners s e = Some a \<and> a < nxt s \<and> (\<exists>ys. heap s a = xs @ ys \<and> True)" by simp
  from invoke_on_tracks[where Q = "\<lambda>ys. True", OF calm only _ this, of "xs ! k" d] inv1
  have T1: "listeners s1 e = Some a \<and> a < nxt s1 \<and> (\<exists>ys. heap s1 a = xs @ ys)" by simp
  from lt have k1: "Suc k \<le> length xs" by simp
  have "c \<in> set (drop (Suc k) xs) \<or> (\<exists>ys. heap s1 a = xs @ ys \<and> c2 \<in> set ys)"
  proof (cases "\<exists>ys. heap s a = xs @ ys \<and> c2 \<in> set ys")
    case True
    with Suc.prems(1)
    have "listeners s e = Some a \<and> a < nxt s \<and> (\<exists>ys. heap s a = xs @ ys \<and> c2 \<in> set ys)"
      by simp
    from invoke_on_tracks[where Q = "\<lambda>ys. c2 \<in> set ys", OF calm only _ this, of "xs ! k" d] inv1
    show ?thesis by simp
  next
    case False
    with Suc.prems(3) have "c \<in> set (drop k xs)" by simp
    with lt have "c = xs ! k \<or> c \<in> set (drop (Suc k) xs)"
      by (simp add: Cons_nth_drop_Suc[symmetric])
    then show ?thesis
    proof
      assume "c = xs ! k"
      with invoke_on_adds[OF calm only e adds[of "world s"] Suc.prems(1)] inv1
      show ?thesis by simp
    qed simp
  qed
  from Suc.hyps(1)[OF n T1 k1 this] next_k show ?case by simp
qed

text \<open>
  C10 (amended): let a callback \<open>c\<close> that is subscribed to \<open>e\<close> call \<open>on(e, c2)\<close>
  whenever it is invoked with \<open>d\<close>, in a pass during which the callbacks only subscribe
  (no removal, no \<open>disconnect\<close>) and return normally. Then \<open>c2\<close> is appended to the very
  array the pass is iterating, behind all callbacks subscribed before, but the pass does
  not invoke it: the pass invokes exactly the callbacks subscribed when it started. The
  addition is delivered from the next pass on, which invokes the whole extended list.
\<close>

theorem addition_during_dispatch:
  fixes w :: 'w and react :: "('j, 'w) callbacks"
  assumes reach: "s = run react evs (init w)"
    and calm: "calm react"
    and only: "\<And>c d w. list_all is_On (calls (react c d w))"
    and sub: "c \<in> set (subscribers s e)"
    and adds: "\<And>w. On e c2 \<in> set (calls (react c d w))"
  shows "log (snd (emit react e d s)) = log s @ map (\<lambda>x. (x, d)) (subscribers s e) \<and>
         lookup (snd (emit react e d s)) e = lookup s e \<and>
         (\<exists>ys. subscribers (snd (emit react e d s)) e = subscribers s e @ ys \<and> c2 \<in> set ys) \<and>
         log (snd (emit react e d' (snd (emit react e d s))))
           = log (snd (emit react e d s))
               @ map (\<lambda>x. (x, d')) (subscribers (snd (emit react e d s)) e)"
proof -
  have wf: "wf s" unfolding reach by (rule reachable_wf)
  from sub obtain a where look: "lookup s e = Array a"
    by (cases "lookup s e") (simp_all add: subscribers_def)
  then have l: "listeners s e = Some a" by (simp add: lookup_cases)
  from wf l have a: "a < nxt s" and e: "\<not> inherited e"
    by (rule wf_bound, rule wf_own)
  from look have subs: "subscribers s e = heap s a" by (simp add: subscribers_def)
  let ?s' = "snd (emit react e d s)"
  have s': "?s' = snd (forEach react a d (length (heap s a)) 0 s)"
    using look by (simp add: emit_def)
  from l a have "listeners s e = Some a \<and> a < nxt s \<and> (\<exists>ys. heap s a = heap s a @ ys)"
    by simp
  from forEach_on_adds[OF calm only e adds this, where k = 0] sub subs
  have after: "listeners ?s' e = Some a" "\<exists>ys. heap ?s' a = heap s a @ ys \<and> c2 \<in> set ys"
    unfolding s' by simp_all
  from after(1) have look': "lookup ?s' e = Array a" by (simp add: lookup_cases)
  have wf': "wf ?s'" using wf by (rule emit_wf)
  from emit_snapshot[OF calm wf e, of d] emit_snapshot[OF calm wf' e, of d'] look look' after(2) subs
  show ?thesis by (simp add: subscribers_def)
qed

theorem addition_during_dispatch_witness:
  "log (snd (emit (subscribes 1 ''chat_message'' 2) ''chat_message'' Null
          (run (subscribes 1 ''chat_message'' 2) [Call (On ''chat_message'' 1)] fresh)))
     = [(1, Null)] \<and>
   log (snd (emit (subscribes 1 ''chat_message'' 2) ''chat_message'' Null
          (snd (emit (subscribes 1 ''chat_message'' 2) ''chat_message'' Null
             (run (subscribes 1 ''chat_message'' 2) [Call (On ''chat_message'' 1)] fresh)))))
     = [(1, Null), (1, Null), (2, Null)]"
proof -
  let ?react = "subscribes 1 ''chat_message'' 2"
  let ?s = "run ?react [Call (On ''chat_message'' 1)] fresh"
  have e: "\<not> inherited ''chat_message''"
    by (simp add: inherited_def object_prototype_keys_def)
  then have c: "calm ?react"
    by (simp add: calm_def subscribes_def)
  have o: "list_all is_On (calls (?react c d w))" for c d w
    by (simp add: subscribes_def)
  have s: "subscribers ?s ''chat_message'' = [1]" "log ?s = []"
    using e by (simp_all add: step_def on_def lookup_def init_def push_def subscribers_def fresh_def)
  then have m: "1 \<in> set (subscribers ?s ''chat_message'')" by simp
  have a: "On ''chat_message'' 2 \<in> set (calls (?react 1 Null w))" for w
    by (simp add: subscribes_def)
  have s1: "subscribers (snd (emit ?react ''chat_message'' Null ?s)) ''chat_message'' = [1, 2]"
    using e by (simp add: emit_def step_def on_def lookup_def init_def push_def fresh_def
        forEach.simps invoke_def subscribers_def subscribes_def)
  from addition_during_dispatch[where react = ?react and w = "()" and d = Null and d' = Null
      and evs = "[Call (On ''chat_message'' 1)]", OF _ c o m a] s s1
  show ?thesis by (simp add: fresh_def)
qed

section \<open>Disconnecting\<close>

lemma emit_empty_table:
  "listeners s = Map.empty \<Longrightarrow> snd (emit react e d s) = s"
  by (simp add: emit_def lookup_def)

lemma emit_empty_returns:
  "listeners s = Map.empty \<Longrightarrow> \<not> inherited e \<Longrightarrow> emit react e d s = (Returned, s)"
  by (simp add: emit_def lookup_def)

lemma api_empty_table:
  "listeners s = Map.empty \<Longrightarrow> \<not> is_On c \<Longrightarrow>
   listeners (snd (api c s)) = Map.empty \<and> log (snd (api c s)) = log s"
  by (cases c)
    (simp_all add: connect_def attemptReconnect_def disconnect_def off_def send_def lookup_def
       Let_def split: option.splits)

lemma step_empty_table:
  assumes "listeners s = Map.empty" "\<not> calls_on ev"
  shows "listeners (step react ev s) = Map.empty \<and> log (step react ev s) = log s"
proof (cases ev)
  case (Open h)
  with assms(1) show ?thesis
    by (simp add: step_def onopen_def emit_empty_table)
next
  case (Close h)
  have "\<not> inherited ''disconnected''"
    by (simp add: inherited_def object_prototype_keys_def)
  with assms(1) show ?thesis
    by (simp add: Close step_def onclose_def emit_empty_returns attemptReconnect_def Let_def)
next
  case (Error h)
  with assms(1) show ?thesis
    by (simp add: step_def onerror_def emit_empty_table)
next
  case (Message h f)
  with assms(1) show ?thesis
    by (simp add: step_def onmessage_def emit_empty_table split: frame.splits)
next
  case (Timer i ok)
  with assms(1) show ?thesis
    by (simp add: step_def connect_def attemptReconnect_def Let_def)
next
  case (Call c)
  with assms api_empty_table[of s c] show ?thesis
    by (simp add: step_def)
qed

lemma run_empty_table:
  "listeners s = Map.empty \<Longrightarrow> list_all (\<lambda>ev. \<not> calls_on ev) evs \<Longrightarrow>
   listeners (run react evs s) = Map.empty \<and> log (run react evs s) = log s"
proof (induction evs arbitrary: s)
  case Nil
  then show ?case by simp
next
  case (Cons ev evs)
  then have "\<not> calls_on ev" and rest: "list_all (\<lambda>ev. \<not> calls_on ev) evs" by simp_all
  from step_empty_table[OF Cons.prems(1) this(1), of react]
    Cons.IH[OF _ rest, of "step react ev s"]
  show ?case by simp
qed

text \<open>
  C8: \<open>disconnect\<close> replaces the subscription table by an empty one, for every event
  name. Whatever happens afterwards, as long as \<open>on\<close> is not called from outside, the
  table stays empty and no callback is invoked: an \<open>emit e d\<close> then finds no subscriber
  and leaves the state as it is.
\<close>

theorem disconnect_clears_table:
  assumes "list_all (\<lambda>ev. \<not> calls_on ev) evs"
  shows "listeners (disconnect s) = Map.empty \<and>
         subscribers (run react evs (disconnect s)) e = [] \<and>
         snd (emit react e d (run react evs (disconnect s))) = run react evs (disconnect s) \<and>
         log (snd (emit react e d (run react evs (disconnect s)))) = log s"
proof -
  have d: "listeners (disconnect s) = Map.empty" "log (disconnect s) = log s"
    by (simp_all add: disconnect_def Let_def split: option.splits)
  from run_empty_table[OF d(1) assms, of react] d show ?thesis
    by (simp add: emit_empty_table subscribers_def lookup_def)
qed

theorem disconnect_clears_table_witness:
  "subscribers (run quiet [Close 0, Call (Off ''task_updated'' 4)]
       (disconnect (run quiet [Call (Connect True), Open 0, Call (On ''task_updated'' 4)] fresh)))
     ''task_updated'' = [] \<and>
   log (snd (emit quiet ''task_updated'' Null
       (run quiet [Close 0, Call (Off ''task_updated'' 4)]
          (disconnect (run quiet [Call (Connect True), Open 0, Call (On ''task_updated'' 4)] fresh)))))
     = []"
proof -
  let ?s = "run quiet [Call (Connect True), Open 0, Call (On ''task_updated'' 4)] fresh"
  have n: "list_all (\<lambda>ev. \<not> calls_on ev) [Close 0, Call (Off ''task_updated'' 4) :: unit event]"
    by simp
  have l: "log ?s = []"
    by (simp add: step_def onopen_def emit_def lookup_def on_def push_def connect_def init_def
          fresh_def inherited_def object_prototype_keys_def)
  from disconnect_clears_table[OF n, of ?s quiet "''task_updated''" Null]
  have "subscribers (run quiet [Close 0, Call (Off ''task_updated'' 4)] (disconnect ?s))
          ''task_updated'' = []"
    and "log (snd (emit quiet ''task_updated'' Null
          (run quiet [Close 0, Call (Off ''task_updated'' 4)] (disconnect ?s)))) = log ?s"
    by blast+
  with l show ?thesis by (simp only:) 
qed

text \<open>
  C3, as the claim states it, fails: the service connects, the socket opens, \<open>disconnect\<close>
  is called (no timer is pending, no handle is held), and then the close event of the old
  socket arrives. Its handler schedules a reconnect after 1000, and when that timer fires
  \<open>connect\<close> opens a new socket.
\<close>

theorem reconnect_after_disconnect_counterexample:
  "timers (run quiet [Call (Connect True), Open 0, Call Disconnect] fresh) = [] \<and>
   ws (run quiet [Call (Connect True), Open 0, Call Disconnect] fresh) = None \<and>
   timers (run quiet [Call (Connect True), Open 0, Call Disconnect, Close 0] fresh)
     = [(1000, False)] \<and>
   ws (run quiet [Call (Connect True), Open 0, Call Disconnect, Close 0, Timer 0 True] fresh)
     = Some 1 \<and>
   sockets (run quiet [Call (Connect True), Open 0, Call Disconnect, Close 0, Timer 0 True] fresh) 1
     = CONNECTING"
  by (simp add: step_def onopen_def onclose_def emit_def lookup_def connect_def disconnect_def
        attemptReconnect_def maxReconnectAttempts_def reconnectDelay_def init_def fresh_def
        inherited_def object_prototype_keys_def Let_def)

text \<open>
  C3 (amended): \<open>disconnect\<close> starts closing the handle it holds, forgets it and clears the
  subscription table; it does not keep the close event of that handle from running the
  reconnect policy, since the close handler compares no handle. When the close event
  of the old handle arrives after \<open>disconnect\<close>, the handler finds no subscriber and calls
  \<open>attemptReconnect\<close>: with a counter below 5 it increments the counter and schedules a
  \<open>connect\<close> after 1000 times the new counter, and that timer, when it fires, opens a new
  socket. Only with the counter at 5 or above nothing is scheduled.
\<close>

theorem reconnect_after_disconnect:
  assumes "ws s = Some h" "h < nsock s" "sockets s h \<noteq> CLOSED"
  shows "enabled (Close h) (disconnect s) \<and>
         step react (Close h) (disconnect s)
           = attemptReconnect ((disconnect s)\<lparr> sockets := (sockets (disconnect s))(h := CLOSED) \<rparr>) \<and>
         (reconnectAttempts s < 5 \<longrightarrow>
            reconnectAttempts (step react (Close h) (disconnect s)) = reconnectAttempts s + 1 \<and>
            timers (step react (Close h) (disconnect s))
              = timers s @ [(1000 * (reconnectAttempts s + 1), False)] \<and>
            ws (step react (Timer (length (timers s)) True) (step react (Close h) (disconnect s)))
              = Some (nsock s)) \<and>
         (5 \<le> reconnectAttempts s \<longrightarrow>
            timers (step react (Close h) (disconnect s)) = timers s) \<and>
         ws (disconnect s) = None \<and>
         listeners (disconnect s) = Map.empty \<and>
         sockets (disconnect s) h = close (sockets s h)"
proof -
  have e: "\<not> inherited ''disconnected''"
    by (simp add: inherited_def object_prototype_keys_def)
  have d: "listeners (disconnect s) = Map.empty" "timers (disconnect s) = timers s"
    "reconnectAttempts (disconnect s) = reconnectAttempts s" "nsock (disconnect s) = nsock s"
    "sockets (disconnect s) h = close (sockets s h)" "ws (disconnect s) = None"
    using assms(1) by (simp_all add: disconnect_def Let_def)
  from assms(3) have c: "close (sockets s h) \<noteq> CLOSED"
    by (cases "sockets s h") simp_all
  with d assms(2) have en: "enabled (Close h) (disconnect s)" by simp
  let ?s1 = "(disconnect s)\<lparr> sockets := (sockets (disconnect s))(h := CLOSED) \<rparr>"
  from d(1) have "emit react ''disconnected'' Null ?s1 = (Returned, ?s1)"
    by (intro emit_empty_returns e) simp
  with en have st: "step react (Close h) (disconnect s) = attemptReconnect ?s1"
    by (simp add: step_def onclose_def)
  have low: "reconnectAttempts (attemptReconnect ?s1) = reconnectAttempts s + 1 \<and>
      timers (attemptReconnect ?s1) = timers s @ [(1000 * (reconnectAttempts s + 1), False)] \<and>
      ws (step react (Timer (length (timers s)) True) (attemptReconnect ?s1)) = Some (nsock s)"
    if "reconnectAttempts s < 5"
    using that d(2,3,4)
    by (simp add: attemptReconnect_def maxReconnectAttempts_def reconnectDelay_def Let_def
          step_def connect_def)
  have high: "timers (attemptReconnect ?s1) = timers s" if "5 \<le> reconnectAttempts s"
    using that d(2,3) by (simp add: attemptReconnect_def maxReconnectAttempts_def)
  from en st low high d(1,5,6) show ?thesis by simp
qed

theorem reconnect_after_disconnect_witness:
  "timers (step quiet (Close 0) (disconnect (run quiet [Call (Connect True), Open 0] fresh)))
     = [(1000, False)] \<and>
   ws (step quiet (Timer 0 True)
         (step quiet (Close 0) (disconnect (run quiet [Call (Connect True), Open 0] fresh))))
     = Some 1"
proof -
  let ?s = "run quiet [Call (Connect True), Open 0] fresh"
  have s: "ws ?s = Some 0" "0 < nsock ?s" "sockets ?s 0 \<noteq> CLOSED"
    "reconnectAttempts ?s = 0" "timers ?s = []" "nsock ?s = 1"
    by (simp_all add: step_def onopen_def emit_def lookup_def connect_def init_def fresh_def
          inherited_def object_prototype_keys_def)
  have lt: "reconnectAttempts ?s < 5" using s(4) by simp
  from reconnect_after_disconnect[OF s(1,2,3), of quiet,
      THEN conjunct2, THEN conjunct2, THEN conjunct1, THEN mp, OF lt] s(4,5,6)
  show ?thesis by simp
qed

section \<open>Connecting\<close>

text \<open>
  C9, as the claim states it, fails: two calls of \<open>connect\<close>, each of which gets a socket,
  leave two sockets that are not closed; the first one can still open.
\<close>

theorem two_live_handles_counterexample:
  "live_handles (run quiet [Call (Connect True), Call (Connect True)] fresh) = [0, 1] \<and>
   map (sockets (run quiet [Call (Connect True), Call (Connect True), Open 0, Open 1] fresh)) [0, 1]
     = [OPEN, OPEN] \<and>
   ws (run quiet [Call (Connect True), Call (Connect True), Open 0, Open 1] fresh) = Some 1"
  by (simp add: step_def onopen_def emit_def lookup_def connect_def init_def fresh_def
        inherited_def object_prototype_keys_def live_handles_def upt_rec)

text \<open>
  C9 (amended): the service refers to at most one handle at a time, the field \<open>ws\<close>, but
  \<open>connect\<close> does not discard the handle it held: a call that gets a socket stores the
  new handle in \<open>ws\<close> and leaves every socket created before in the state it was in, so
  the sockets that are not closed are those of before and the new one. A call whose
  socket construction throws creates and closes nothing.
\<close>

theorem connect_keeps_old_handle:
  "ws (connect True s) = Some (nsock s) \<and>
   sockets (connect True s) (nsock s) = CONNECTING \<and>
   (\<forall>h. h \<noteq> nsock s \<longrightarrow> sockets (connect True s) h = sockets s h) \<and>
   live_handles (connect True s) = live_handles s @ [nsock s] \<and>
   live_handles (connect False s) = live_handles s \<and>
   ws (connect False s) = ws s"
proof -
  have "filter (\<lambda>h. ((sockets s)(nsock s := CONNECTING)) h \<noteq> CLOSED) [0..<nsock s]
          = filter (\<lambda>h. sockets s h \<noteq> CLOSED) [0..<nsock s]"
    by (rule filter_cong) auto
  then show ?thesis
    by (simp add: connect_def attemptReconnect_def live_handles_def Let_def)
qed

theorem connect_keeps_old_handle_witness:
  "live_handles (connect True (connect True fresh)) = [0, 1] \<and>
   ws (connect True (connect True fresh)) = Some 1"
proof -
  have "live_handles (connect True fresh) = [0]" "nsock (connect True fresh) = 1"
    by (simp_all add: connect_def live_handles_def fresh_def init_def)
  with connect_keeps_old_handle[of "connect True fresh"] show ?thesis by simp
qed

section \<open>Invariants of the event loop\<close>

lemma step_preserves:
  fixes P :: "('j, 'w) service \<Rightarrow> bool"
  assumes api: "\<And>c s. ok c \<Longrightarrow> P s \<Longrightarrow> P (snd (api c s))"
    and upd: "\<And>s l w. P s \<Longrightarrow> P (s\<lparr> log := l, world := w \<rparr>)"
    and okr: "\<And>c d w. list_all ok (calls (react c d w))"
    and okev: "\<And>c. ev = Call c \<Longrightarrow> ok c"
    and rec: "\<And>s. P s \<Longrightarrow> P (attemptReconnect s)"
    and opn: "\<And>s h. ev = Open h \<Longrightarrow> P s \<Longrightarrow> enabled ev s \<Longrightarrow>
                P (s\<lparr> sockets := (sockets s)(h := OPEN), reconnectAttempts := 0 \<rparr>)"
    and cls: "\<And>s h. P s \<Longrightarrow> P (s\<lparr> sockets := (sockets s)(h := CLOSED) \<rparr>)"
    and tim: "\<And>s i b. ev = Timer i b \<Longrightarrow> P s \<Longrightarrow> enabled ev s \<Longrightarrow>
                P (connect b (s\<lparr> timers := (timers s)[i := (fst (timers s ! i), True)] \<rparr>))"
  shows "P s \<Longrightarrow> P (step react ev s)"
proof -
  assume P: "P s"
  have em: "P (snd (emit react e d s))" if "P s" for e d and s :: "('j, 'w) service"
  proof (rule emit_preserves[where P = P and ok = ok])
    show "P (snd (api c s))" if "ok c" "P s" for c and s :: "('j, 'w) service"
      using that by (rule api)
    show "P (s\<lparr> log := l, world := w \<rparr>)" if "P s" for l w and s :: "('j, 'w) service"
      using that by (rule upd)
    show "list_all ok (calls (react c d w))" for c d w
      by (rule okr)
    show "P s" by (rule that)
  qed
  show ?thesis
  proof (cases "enabled ev s")
    case False
    with P show ?thesis by (simp add: step_def)
  next
    case True
    show ?thesis
    proof (cases ev)
      case (Open h)
      from opn[OF Open P True] have "P (s\<lparr> sockets := (sockets s)(h := OPEN), reconnectAttempts := 0 \<rparr>)" .
      from em[OF this] True Open show ?thesis
        by (simp add: step_def onopen_def)
    next
      case (Close h)
      let ?s1 = "s\<lparr> sockets := (sockets s)(h := CLOSED) \<rparr>"
      from cls[OF P] have "P ?s1" .
      from em[OF this, of "''disconnected''" Null]
      have "P (snd (emit react ''disconnected'' Null ?s1))" .
      with rec True Close show ?thesis
        by (cases "emit react ''disconnected'' Null ?s1")
          (auto simp: step_def onclose_def split: outcome.splits)
    next
      case (Error h)
      from em[OF P] True Error show ?thesis by (simp add: step_def onerror_def)
    next
      case (Message h f)
      from em[OF P] True Message P show ?thesis
        by (simp add: step_def onmessage_def split: frame.splits)
    next
      case (Timer i b)
      from tim[OF Timer P True] True Timer show ?thesis by (simp add: step_def)
    next
      case (Call c)
      from api[OF okev[OF Call] P] True Call show ?thesis by (simp add: step_def)
    qed
  qed
qed

lemma api_attempts_bound: "reconnectAttempts s \<le> 5 \<Longrightarrow> reconnectAttempts (snd (api c s)) \<le> 5"
  by (cases c)
    (auto simp: connect_def attemptReconnect_def maxReconnectAttempts_def disconnect_def on_def
       off_def send_def push_def Let_def split: option.splits slot.splits)

lemma step_attempts_bound:
  "reconnectAttempts s \<le> 5 \<Longrightarrow> reconnectAttempts (step react ev s) \<le> 5"
  by (rule step_preserves[where ok = "\<lambda>c. True" and P = "\<lambda>s. reconnectAttempts s \<le> 5"])
    (simp_all add: api_attempts_bound list_all_iff attemptReconnect_def maxReconnectAttempts_def
       connect_def Let_def)

lemma run_attempts_bound:
  "reconnectAttempts s \<le> 5 \<Longrightarrow> reconnectAttempts (run react evs s) \<le> 5"
  by (induction evs arbitrary: s) (simp_all add: step_attempts_bound)

lemma api_scheduled:
  "length (timers s) + m = reconnectAttempts s + n \<Longrightarrow>
   length (timers (snd (api c s))) + m = reconnectAttempts (snd (api c s)) + n"
  by (cases c)
    (auto simp: connect_def attemptReconnect_def maxReconnectAttempts_def disconnect_def on_def
       off_def send_def push_def Let_def split: option.splits slot.splits)

lemma step_scheduled:
  "\<not> is_Open ev \<Longrightarrow> length (timers s) + m = reconnectAttempts s + n \<Longrightarrow>
   length (timers (step react ev s)) + m = reconnectAttempts (step react ev s) + n"
  by (rule step_preserves[where ok = "\<lambda>c. True"
        and P = "\<lambda>s. length (timers s) + m = reconnectAttempts s + n"])
    (auto simp: api_scheduled list_all_iff attemptReconnect_def connect_def Let_def)

lemma run_scheduled:
  "list_all (\<lambda>ev. \<not> is_Open ev) evs \<Longrightarrow> length (timers s) + m = reconnectAttempts s + n \<Longrightarrow>
   length (timers (run react evs s)) + m = reconnectAttempts (run react evs s) + n"
  by (induction evs arbitrary: s) (simp_all add: step_scheduled)

lemma api_at_max:
  "reconnectAttempts s = 5 \<Longrightarrow> reconnectAttempts (snd (api c s)) = 5"
  by (cases c)
    (auto simp: connect_def attemptReconnect_def maxReconnectAttempts_def disconnect_def on_def
       off_def send_def push_def Let_def split: option.splits slot.splits)

lemma step_at_max:
  "\<not> is_Open ev \<Longrightarrow> reconnectAttempts s = 5 \<Longrightarrow> reconnectAttempts (step react ev s) = 5"
  by (rule step_preserves[where ok = "\<lambda>c. True" and P = "\<lambda>s. reconnectAttempts s = 5"])
    (auto simp: api_at_max list_all_iff attemptReconnect_def maxReconnectAttempts_def
       connect_def Let_def)

lemma run_at_max:
  "list_all (\<lambda>ev. \<not> is_Open ev) evs \<Longrightarrow> reconnectAttempts s = 5 \<Longrightarrow>
   reconnectAttempts (run react evs s) = 5"
  by (induction evs arbitrary: s) (simp_all add: step_at_max)

lemma close_not_connecting: "close r \<noteq> CONNECTING"
  by (cases r) simp_all

lemma api_stopped:
  assumes "\<not> is_Connect c"
    and "reconnectAttempts s = 5 \<and> timers s = ts \<and> nsock s = n \<and>
         (\<forall>h<n. sockets s h \<noteq> CONNECTING)"
  shows "reconnectAttempts (snd (api c s)) = 5 \<and> timers (snd (api c s)) = ts \<and>
         nsock (snd (api c s)) = n \<and> (\<forall>h<n. sockets (snd (api c s)) h \<noteq> CONNECTING)"
proof (cases c)
  case (Connect ok)
  with assms(1) show ?thesis by simp
next
  case Disconnect
  with assms(2) show ?thesis
    by (auto simp: disconnect_def Let_def close_not_connecting split: option.splits)
next
  case (On e x)
  with assms(2) show ?thesis
    by (cases "lookup s e") (simp_all add: on_cases push_def)
next
  case (Off e x)
  with assms(2) show ?thesis
    by (cases "lookup s e") (simp_all add: off_cases)
next
  case (Send m)
  with assms(2) show ?thesis
    by (auto simp: send_def split: option.splits)
qed

lemma step_stopped:
  fixes s :: "('j, 'w) service"
  assumes okr: "\<And>c d w. list_all (\<lambda>c. \<not> is_Connect c) (calls (react c d w))"
    and ev: "\<not> calls_connect ev"
    and fired: "list_all snd ts"
  shows "reconnectAttempts s = 5 \<and> timers s = ts \<and> nsock s = n \<and>
         (\<forall>h<n. sockets s h \<noteq> CONNECTING) \<Longrightarrow>
    reconnectAttempts (step react ev s) = 5 \<and> timers (step react ev s) = ts \<and>
    nsock (step react ev s) = n \<and> (\<forall>h<n. sockets (step react ev s) h \<noteq> CONNECTING)"
proof (rule step_preserves[where ok = "\<lambda>c. \<not> is_Connect c"
      and P = "\<lambda>s. reconnectAttempts s = 5 \<and> timers s = ts \<and> nsock s = n \<and>
                   (\<forall>h<n. sockets s h \<noteq> CONNECTING)"])
  fix c and s :: "('j, 'w) service"
  assume "\<not> is_Connect c"
    and "reconnectAttempts s = 5 \<and> timers s = ts \<and> nsock s = n \<and>
         (\<forall>h<n. sockets s h \<noteq> CONNECTING)"
  then show "reconnectAttempts (snd (api c s)) = 5 \<and> timers (snd (api c s)) = ts \<and>
         nsock (snd (api c s)) = n \<and> (\<forall>h<n. sockets (snd (api c s)) h \<noteq> CONNECTING)"
    by (rule api_stopped)
next
  fix c assume "ev = Call c"
  with ev show "\<not> is_Connect c" by simp
next
  fix i b and s :: "('j, 'w) service"
  assume "ev = Timer i b" "enabled ev s"
    and "reconnectAttempts s = 5 \<and> timers s = ts \<and> nsock s = n \<and>
         (\<forall>h<n. sockets s h \<noteq> CONNECTING)"
  with fired have False by (auto simp: list_all_length)
  then show "reconnectAttempts (connect b (s\<lparr>timers := (timers s)[i := (fst (timers s ! i), True)]\<rparr>)) = 5 \<and>
       timers (connect b (s\<lparr>timers := (timers s)[i := (fst (timers s ! i), True)]\<rparr>)) = ts \<and>
       nsock (connect b (s\<lparr>timers := (timers s)[i := (fst (timers s ! i), True)]\<rparr>)) = n \<and>
       (\<forall>h<n. sockets (connect b (s\<lparr>timers := (timers s)[i := (fst (timers s ! i), True)]\<rparr>)) h \<noteq> CONNECTING)"
    by simp
qed (auto simp: okr attemptReconnect_def maxReconnectAttempts_def)

lemma run_stopped:
  assumes okr: "\<And>c d w. list_all (\<lambda>c. \<not> is_Connect c) (calls (react c d w))"
    and fired: "list_all snd ts"
  shows "list_all (\<lambda>ev. \<not> calls_connect ev) evs \<Longrightarrow>
    reconnectAttempts s = 5 \<and> timers s = ts \<and> nsock s = n \<and>
         (\<forall>h<n. sockets s h \<noteq> CONNECTING) \<Longrightarrow>
    reconnectAttempts (run react evs s) = 5 \<and> timers (run react evs s) = ts \<and>
    nsock (run react evs s) = n \<and> (\<forall>h<n. sockets (run react evs s) h \<noteq> CONNECTING)"
proof (induction evs arbitrary: s)
  case Nil
  then show ?case by simp
next
  case (Cons ev evs)
  then have ev: "\<not> calls_connect ev" and rest: "list_all (\<lambda>ev. \<not> calls_connect ev) evs"
    by simp_all
  from step_stopped[OF okr ev fired Cons.prems(2)] Cons.IH[OF rest] show ?case by simp
qed

text \<open>
  C4: in every reachable state the reconnect counter is at most 5. In a run from the
  fresh service in which no socket opens, at most five reconnects are ever scheduled,
  however many close events arrive: there is no sixth. Once the counter stands at 5, no
  event other than an open changes it or schedules a reconnect. And when, at 5, every
  scheduled reconnect has run and no socket is still connecting, nothing at all happens
  any more unless \<open>connect\<close> is called, from outside or by a callback: no timer is set,
  no socket is created, the counter stays.
\<close>

theorem reconnect_bounded:
  fixes w :: 'w and react :: "('j, 'w) callbacks" and s :: "('j, 'w) service"
  shows
  "reconnectAttempts (run react evs (init w)) \<le> 5 \<and>
   (list_all (\<lambda>ev. \<not> is_Open ev) evs \<longrightarrow> length (timers (run react evs (init w))) \<le> 5) \<and>
   (reconnectAttempts s = 5 \<and> list_all (\<lambda>ev. \<not> is_Open ev) evs \<longrightarrow>
      reconnectAttempts (run react evs s) = 5 \<and>
      length (timers (run react evs s)) = length (timers s)) \<and>
   (stopped s \<and> (\<forall>c d w. list_all (\<lambda>c. \<not> is_Connect c) (calls (react c d w))) \<and>
    list_all (\<lambda>ev. \<not> calls_connect ev) evs \<longrightarrow>
      reconnectAttempts (run react evs s) = 5 \<and>
      timers (run react evs s) = timers s \<and>
      nsock (run react evs s) = nsock s)"
proof -
  let ?i = "init w :: ('j, 'w) service"
  have a: "reconnectAttempts (run react evs ?i) \<le> 5"
    by (rule run_attempts_bound) (simp add: init_def)
  have b: "length (timers (run react evs ?i)) \<le> 5" if "list_all (\<lambda>ev. \<not> is_Open ev) evs"
  proof -
    have "length (timers ?i) + 0 = reconnectAttempts ?i + 0" by (simp add: init_def)
    from run_scheduled[OF that this, of react] a show ?thesis by simp
  qed
  have c: "reconnectAttempts (run react evs s) = 5 \<and>
      length (timers (run react evs s)) = length (timers s)"
    if "reconnectAttempts s = 5" "list_all (\<lambda>ev. \<not> is_Open ev) evs"
  proof -
    from run_at_max[OF that(2,1), of react]
    have m: "reconnectAttempts (run react evs s) = 5" .
    from that(1) have "length (timers s) + 5 = reconnectAttempts s + length (timers s)"
      by simp
    from run_scheduled[OF that(2) this, of react] m show ?thesis by simp
  qed
  have d: "reconnectAttempts (run react evs s) = 5 \<and> timers (run react evs s) = timers s \<and>
      nsock (run react evs s) = nsock s"
    if "stopped s" "\<forall>c d w. list_all (\<lambda>c. \<not> is_Connect c) (calls (react c d w))"
      "list_all (\<lambda>ev. \<not> calls_connect ev) evs"
  proof -
    from that(1) have "reconnectAttempts s = 5 \<and> timers s = timers s \<and> nsock s = nsock s \<and>
         (\<forall>h<nsock s. sockets s h \<noteq> CONNECTING)" and f: "list_all snd (timers s)"
      by (auto simp: stopped_def maxReconnectAttempts_def list_all_iff)
    from run_stopped[OF _ f that(3) this(1), of react] that(2) show ?thesis by simp
  qed
  from a b c d show ?thesis by blast
qed


theorem reconnect_bounded_witness:
  "map fst (timers (run quiet
       [Call (Connect True), Close 0, Timer 0 True, Close 1, Timer 1 True, Close 2,
        Timer 2 True, Close 3, Timer 3 True, Close 4, Timer 4 True, Close 5] fresh))
     = [1000, 2000, 3000, 4000, 5000] \<and>
   length (timers (run quiet
       [Call (Connect True), Close 0, Timer 0 True, Close 1, Timer 1 True, Close 2,
        Timer 2 True, Close 3, Timer 3 True, Close 4, Timer 4 True, Close 5] fresh)) \<le> 5 \<and>
   timers (run quiet [Error 5, Close 5, Timer 4 True, Call (Send (Serializable ''ping''))]
      (run quiet
       [Call (Connect True), Close 0, Timer 0 True, Close 1, Timer 1 True, Close 2,
        Timer 2 True, Close 3, Timer 3 True, Close 4, Timer 4 True, Close 5] fresh))
     = timers (run quiet
       [Call (Connect True), Close 0, Timer 0 True, Close 1, Timer 1 True, Close 2,
        Timer 2 True, Close 3, Timer 3 True, Close 4, Timer 4 True, Close 5] fresh)"
proof -
  let ?evs = "[Call (Connect True), Close 0, Timer 0 True, Close 1, Timer 1 True, Close 2,
        Timer 2 True, Close 3, Timer 3 True, Close 4, Timer 4 True, Close 5] :: unit event list"
  let ?s = "run quiet ?evs fresh"
  note defs = step_def onclose_def emit_def lookup_def connect_def attemptReconnect_def
          maxReconnectAttempts_def reconnectDelay_def init_def fresh_def inherited_def
          object_prototype_keys_def Let_def
  have s: "reconnectAttempts ?s = 5"
    "timers ?s = [(1000, True), (2000, True), (3000, True), (4000, True), (5000, True)]"
    "\<forall>h. sockets ?s h \<noteq> CONNECTING"
    by (simp_all add: defs)
  have no: "list_all (\<lambda>ev. \<not> is_Open ev) ?evs" by simp
  have st: "stopped ?s"
    unfolding stopped_def using s by (simp add: maxReconnectAttempts_def list_all_iff)
  have q: "\<forall>c d w. list_all (\<lambda>c. \<not> is_Connect c) (calls (quiet c d w))"
    by (simp add: quiet_def)
  have nc: "list_all (\<lambda>ev. \<not> calls_connect ev)
      [Error 5, Close 5, Timer 4 True, Call (Send (Serializable ''ping'')) :: unit event]"
    by simp
  from reconnect_bounded[where react = quiet and w = "()" and evs = ?evs and s = fresh]
  have "list_all (\<lambda>ev. \<not> is_Open ev) ?evs \<longrightarrow> length (timers (run quiet ?evs (init ()))) \<le> 5"
    by blast
  with no have len: "length (timers ?s) \<le> 5" by (simp only: fresh_def)
  from reconnect_bounded[where react = quiet and w = "()" and s = ?s and
      evs = "[Error 5, Close 5, Timer 4 True, Call (Send (Serializable ''ping''))]"] st q nc
  have keep: "timers (run quiet [Error 5, Close 5, Timer 4 True, Call (Send (Serializable ''ping''))] ?s)
      = timers ?s"
    by blast
  have "map fst (timers ?s) = [1000, 2000, 3000, 4000, 5000]"
    unfolding s by simp
  with len keep show ?thesis by blast
qed

section \<open>Opening\<close>

lemma api_keeps_policy:
  assumes "c \<noteq> Connect False"
  shows "reconnectAttempts (snd (api c s)) = reconnectAttempts s \<and>
         timers (snd (api c s)) = timers s"
proof (cases c)
  case (Connect ok)
  with assms show ?thesis by (simp add: connect_def)
next
  case Disconnect
  then show ?thesis by (simp add: disconnect_def Let_def split: option.splits)
next
  case (On e x)
  then show ?thesis by (cases "lookup s e") (simp_all add: on_cases push_def)
next
  case (Off e x)
  then show ?thesis by (cases "lookup s e") (simp_all add: off_cases)
next
  case (Send m)
  then show ?thesis by (auto simp: send_def split: option.splits)
qed

lemma emit_keeps_policy:
  fixes s :: "('j, 'w) service"
  assumes "\<And>c d w. Connect False \<notin> set (calls (react c d w))"
  shows "reconnectAttempts (snd (emit react e d s)) = reconnectAttempts s \<and>
         timers (snd (emit react e d s)) = timers s"
proof (rule emit_preserves[where ok = "\<lambda>c. c \<noteq> Connect False"
      and P = "\<lambda>t. reconnectAttempts t = reconnectAttempts s \<and> timers t = timers s"])
  fix c and t :: "('j, 'w) service"
  assume "c \<noteq> Connect False" "reconnectAttempts t = reconnectAttempts s \<and> timers t = timers s"
  with api_keeps_policy[of c t]
  show "reconnectAttempts (snd (api c t)) = reconnectAttempts s \<and> timers (snd (api c t)) = timers s"
    by simp
next
  fix c d w
  from assms[of c d w] show "list_all (\<lambda>c. c \<noteq> Connect False) (calls (react c d w))"
    by (auto simp: list_all_iff)
qed simp_all

text \<open>
  C5: when a socket opens, the handler sets the reconnect counter to 0 and then emits
  \<open>connected\<close> with \<open>null\<close> to the subscribers of that event; unless a subscriber calls
  \<open>connect\<close> and the socket construction throws, the counter is 0 when the handler is
  done. In any reachable state with the counter at 0, a close event emits
  \<open>disconnected\<close> and then counts attempt 1 and schedules the reconnect after 1000.
  The callbacks are taken to return normally.
\<close>

theorem open_resets_backoff:
  fixes w :: 'w and react :: "('j, 'w) callbacks"
  assumes calm: "calm react"
    and nofail: "\<And>c d w. Connect False \<notin> set (calls (react c d w))"
    and s: "s = run react evs (init w)" and op: "enabled (Open h) s"
    and t: "t = run react evs' (init w)" and zero: "reconnectAttempts t = 0"
    and cl: "enabled (Close h') t"
  shows "reconnectAttempts (step react (Open h) s) = 0 \<and>
         log (step react (Open h) s) = log s @ map (\<lambda>c. (c, Null)) (subscribers s ''connected'') \<and>
         reconnectAttempts (step react (Close h') t) = 1 \<and>
         timers (step react (Close h') t) = timers t @ [(1000, False)] \<and>
         log (step react (Close h') t)
           = log t @ map (\<lambda>c. (c, Null)) (subscribers t ''disconnected'')"
proof -
  have e: "\<not> inherited ''connected''" "\<not> inherited ''disconnected''"
    by (simp_all add: inherited_def object_prototype_keys_def)
  have wfs: "wf s" "wf t" unfolding s t by (rule reachable_wf)+
  have keep: "reconnectAttempts (snd (emit react e d u)) = reconnectAttempts u \<and>
              timers (snd (emit react e d u)) = timers u"
    for e d and u :: "('j, 'w) service"
    by (rule emit_keeps_policy) (rule nofail)
  let ?s1 = "s\<lparr> sockets := (sockets s)(h := OPEN), reconnectAttempts := 0 \<rparr>"
  have "wf ?s1" using wfs(1) wf_cong[of ?s1 s] by simp
  from emit_snapshot[OF calm this e(1), of Null] keep[of "''connected''" Null ?s1]
    subscribers_cong[of ?s1 s] op
  have A: "reconnectAttempts (step react (Open h) s) = 0"
    "log (step react (Open h) s) = log s @ map (\<lambda>c. (c, Null)) (subscribers s ''connected'')"
    by (simp_all add: step_def onopen_def)
  let ?t1 = "t\<lparr> sockets := (sockets t)(h' := CLOSED) \<rparr>"
  have "wf ?t1" using wfs(2) wf_cong[of ?t1 t] by simp
  from emit_snapshot[OF calm this e(2), of Null]
  obtain t2 where em: "emit react ''disconnected'' Null ?t1 = (Returned, t2)"
    and lg: "log t2 = log ?t1 @ map (\<lambda>c. (c, Null)) (subscribers ?t1 ''disconnected'')"
    by (cases "emit react ''disconnected'' Null ?t1") simp
  from keep[of "''disconnected''" Null ?t1] em zero
  have k: "reconnectAttempts t2 = 0" "timers t2 = timers t" by simp_all
  from em cl have st: "step react (Close h') t = attemptReconnect t2"
    by (simp add: step_def onclose_def)
  from k lg subscribers_cong[of ?t1 t]
  have B: "reconnectAttempts (step react (Close h') t) = 1"
    "timers (step react (Close h') t) = timers t @ [(1000, False)]"
    "log (step react (Close h') t) = log t @ map (\<lambda>c. (c, Null)) (subscribers t ''disconnected'')"
    unfolding st
    by (simp_all add: attemptReconnect_def maxReconnectAttempts_def reconnectDelay_def Let_def)
  from A B show ?thesis by simp
qed


theorem open_resets_backoff_witness:
  "reconnectAttempts (step quiet (Open 1)
      (run quiet [Call (Connect True), Close 0, Timer 0 True] fresh)) = 0 \<and>
   reconnectAttempts (step quiet (Close 1)
      (run quiet [Call (Connect True), Close 0, Timer 0 True, Open 1] fresh)) = 1 \<and>
   timers (step quiet (Close 1)
      (run quiet [Call (Connect True), Close 0, Timer 0 True, Open 1] fresh))
     = [(1000, True), (1000, False)]"
proof -
  let ?s = "run quiet [Call (Connect True), Close 0, Timer 0 True] fresh"
  let ?t = "run quiet [Call (Connect True), Close 0, Timer 0 True, Open 1] fresh"
  note defs = step_def onclose_def onopen_def emit_def lookup_def connect_def
          attemptReconnect_def maxReconnectAttempts_def reconnectDelay_def init_def fresh_def
          inherited_def object_prototype_keys_def Let_def
  have c: "calm quiet" by (simp add: calm_def quiet_def)
  have n: "Connect False \<notin> set (calls (quiet c d w))" for c d w
    by (simp add: quiet_def)
  have s: "?s = run quiet [Call (Connect True), Close 0, Timer 0 True] (init ())"
    and t: "?t = run quiet [Call (Connect True), Close 0, Timer 0 True, Open 1] (init ())"
    by (simp_all only: fresh_def)
  have op: "enabled (Open 1) ?s" by (simp add: defs)
  have z: "reconnectAttempts ?t = 0" and cl: "enabled (Close 1) ?t"
    and tm: "timers ?t = [(1000, True)]"
    by (simp_all add: defs)
  from open_resets_backoff[OF c n s op t z cl] tm
  show ?thesis by simp
qed

end
